theory Spec2Isabelle
  imports Complex_Main "HOL-Library.Word"
begin

unbundle bit_operations_syntax

section \<open>Python values and exceptions\<close>

text \<open>
  A Python \<open>str\<close> is modelled by \<^typ>\<open>string\<close>: every \<^typ>\<open>char\<close> stands for one
  code point in the range 0..255, so \<^const>\<open>length\<close> counts code points as \<open>len\<close> does.
  A Python \<open>bytes\<close> value is a list of 8-bit words.  Exceptions are values of
  \<open>py_error\<close>; a function that can raise returns \<open>py_error + 'a\<close>.
\<close>

type_synonym byte = "8 word"
type_synonym bytes = "byte list"

datatype py_error =
    ZeroDivisionError
  | ValueError
  | binascii_Error
  | NameError
  | AttributeError
  | RuntimeError

section \<open>encode.py: \<open>split_string\<close>\<close>

text \<open>
  \<open>per_c = math.ceil(len(s_str) / count)\<close>.  Python's \<open>/\<close> raises ZeroDivisionError for
  \<open>count = 0\<close>; otherwise the ceiling of the quotient is \<open>- ((- len) // count)\<close> in
  integer arithmetic (Isabelle's \<open>div\<close> on \<^typ>\<open>int\<close> rounds towards minus infinity,
  as \<open>//\<close> does).
\<close>

definition ceil_div :: "int \<Rightarrow> int \<Rightarrow> int" where
  "ceil_div a b = - ((- a) div b)"

text \<open>
  The loop \<open>for s in s_str\<close> with its three variables \<open>out_str\<close>, \<open>c_cout\<close> and
  \<open>split_list\<close>.
\<close>

fun split_loop :: "int \<Rightarrow> string \<Rightarrow> string \<times> int \<times> string list \<Rightarrow> string \<times> int \<times> string list" where
  "split_loop per_c [] st = st"
| "split_loop per_c (s # rest) (out_str, c_cout, split_list) =
     (let out_str = out_str @ [s];
          c_cout = c_cout + 1
      in if c_cout = per_c
         then split_loop per_c rest ([], 0, split_list @ [out_str])
         else split_loop per_c rest (out_str, c_cout, split_list))"

definition split_string :: "string \<Rightarrow> int \<Rightarrow> py_error + string list" where
  "split_string s_str count =
     (if count = 0 then Inl ZeroDivisionError
      else
        let per_c = ceil_div (int (length s_str)) count;
            (out_str, c_cout, split_list) = split_loop per_c s_str ([], 0, [])
        in Inr (if c_cout \<noteq> 0 then split_list @ [out_str] else split_list))"

section \<open>decode.py: joining the revealed chunks\<close>

text \<open>
  \<open>reveal_chunks_from_frames\<close> walks over the extracted frames, keeps every revealed
  message that is truthy (neither \<open>None\<close> nor the empty string) and returns
  \<open>"".join(chunks)\<close>.  The argument is the list of results of \<open>reveal_from_image\<close>,
  in frame order.
\<close>

fun collect_chunks :: "string option list \<Rightarrow> string list" where
  "collect_chunks [] = []"
| "collect_chunks (None # ms) = collect_chunks ms"
| "collect_chunks (Some msg # ms) =
     (if msg \<noteq> [] then msg # collect_chunks ms else collect_chunks ms)"

definition join_chunks :: "string option list \<Rightarrow> string" where
  "join_chunks revealed = concat (collect_chunks revealed)"

subsection \<open>Contiguous slices\<close>

text \<open>
  \<open>chunks k xs\<close> cuts \<open>xs\<close> into consecutive slices of \<open>k\<close> elements, the last one
  possibly shorter.  It is the reference against which the loop of \<open>split_string\<close> is
  verified; \<open>finish\<close> is the statement after the loop that appends a pending fragment.
\<close>

function chunks :: "nat \<Rightarrow> 'a list \<Rightarrow> 'a list list" where
  "chunks k xs = (if xs = [] \<or> k = 0 then [] else take k xs # chunks k (drop k xs))"
  by pat_completeness auto
termination
  by (relation "measure (\<lambda>(k, xs). length xs)") auto

declare chunks.simps [simp del]

definition finish :: "string \<times> int \<times> string list \<Rightarrow> string list" where
  "finish st = (case st of (out_str, c_cout, split_list) \<Rightarrow>
      if c_cout \<noteq> 0 then split_list @ [out_str] else split_list)"

section \<open>Python string primitives used by the decoder\<close>

text \<open>
  \<open>str.strip()\<close> removes the characters for which \<open>str.isspace\<close> holds from both ends.
  Among the code points 0..255 these are TAB..CR, FS..US, the blank, NEL (0x85) and the
  no-break space (0xA0).
\<close>

definition isspace :: "char \<Rightarrow> bool" where
  "isspace c = (let n = (of_char c :: nat)
                in (9 \<le> n \<and> n \<le> 13) \<or> (28 \<le> n \<and> n \<le> 32) \<or> n = 133 \<or> n = 160)"

definition strip_with :: "(char \<Rightarrow> bool) \<Rightarrow> string \<Rightarrow> string" where
  "strip_with sp s = rev (dropWhile sp (rev (dropWhile sp s)))"

definition strip :: "string \<Rightarrow> string" where
  "strip s = strip_with isspace s"

text \<open>\<open>s.split(sep)\<close> for a one-character separator: every occurrence cuts.\<close>

fun split_on :: "char \<Rightarrow> string \<Rightarrow> string list" where
  "split_on sep [] = [[]]"
| "split_on sep (c # cs) =
     (if c = sep then [] # split_on sep cs
      else (case split_on sep cs of
              [] \<Rightarrow> [[c]]
            | p # ps \<Rightarrow> (c # p) # ps))"

text \<open>
  \<open>part.split("-", 1)\<close> when \<open>"-" in part\<close>: the text before the first hyphen and the
  text after it.
\<close>

definition split_first :: "char \<Rightarrow> string \<Rightarrow> string \<times> string" where
  "split_first sep s = (takeWhile (\<lambda>c. c \<noteq> sep) s, drop 1 (dropWhile (\<lambda>c. c \<noteq> sep) s))"

text \<open>
  \<open>int(s)\<close> for a \<open>str\<close> argument, base ten: surrounding white space is skipped (TAB..CR,
  blank, NEL, no-break space; the separators FS..US are not white space for \<open>int\<close>), one
  sign is allowed, and the digits may be grouped by single underscores.  Anything else
  raises ValueError.  The interpreter's configurable limit on the number of digits is
  not modelled.
\<close>

definition int_space :: "char \<Rightarrow> bool" where
  "int_space c = (let n = (of_char c :: nat)
                  in (9 \<le> n \<and> n \<le> 13) \<or> n = 32 \<or> n = 133 \<or> n = 160)"

definition is_digit :: "char \<Rightarrow> bool" where
  "is_digit c = (let n = (of_char c :: nat) in 48 \<le> n \<and> n \<le> 57)"

definition digit_val :: "char \<Rightarrow> int" where
  "digit_val c = int (of_char c) - 48"

fun digits_rest :: "string \<Rightarrow> bool" where
  "digits_rest [] = True"
| "digits_rest (c # cs) =
     (if c = CHR ''_''
      then (case cs of [] \<Rightarrow> False | d # ds \<Rightarrow> is_digit d \<and> digits_rest ds)
      else is_digit c \<and> digits_rest cs)"

definition digits_ok :: "string \<Rightarrow> bool" where
  "digits_ok s = (case s of [] \<Rightarrow> False | c # cs \<Rightarrow> is_digit c \<and> digits_rest cs)"

definition digits_value :: "string \<Rightarrow> int" where
  "digits_value s = foldl (\<lambda>acc c. 10 * acc + digit_val c) 0 (filter (\<lambda>c. c \<noteq> CHR ''_'') s)"

definition py_int :: "string \<Rightarrow> py_error + int" where
  "py_int s =
     (let t = strip_with int_space s;
          (sign, body) = (case t of
                            [] \<Rightarrow> (1, t)
                          | c # cs \<Rightarrow> if c = CHR ''+'' then (1, cs)
                                      else if c = CHR ''-'' then (- 1, cs)
                                      else (1, t))
      in if digits_ok body then Inr (sign * digits_value body) else Inl ValueError)"

section \<open>decode.py: \<open>parse_frames_spec\<close>\<close>

text \<open>
  The body of the loop \<open>for part in spec.split(",")\<close>, with the set \<open>frames\<close> as the
  state.  \<open>range(a, b + 1)\<close> is the list \<open>[a..b]\<close>; a ValueError from \<open>int\<close> leaves the
  function.
\<close>

fun parse_parts :: "string list \<Rightarrow> int set \<Rightarrow> py_error + int set" where
  "parse_parts [] frames = Inr frames"
| "parse_parts (part # rest) frames =
     (let part = strip part
      in if part = [] then parse_parts rest frames
         else if CHR ''-'' \<in> set part then
           (let (a, b) = split_first (CHR ''-'') part
            in case py_int a of
                 Inl e \<Rightarrow> Inl e
               | Inr a \<Rightarrow>
                  (case py_int b of
                     Inl e \<Rightarrow> Inl e
                   | Inr b \<Rightarrow>
                      if a \<le> b then parse_parts rest (frames \<union> set [a..b])
                      else parse_parts rest (frames \<union> set [b..a])))
         else
           (case py_int part of
              Inl e \<Rightarrow> Inl e
            | Inr v \<Rightarrow> parse_parts rest (insert v frames)))"

definition parse_frames_spec :: "string \<Rightarrow> py_error + int list" where
  "parse_frames_spec spec =
     (let spec = strip spec
      in case parse_parts (split_on (CHR '','') spec) {} of
           Inl e \<Rightarrow> Inl e
         | Inr frames \<Rightarrow> Inr (sorted_list_of_set frames))"

section \<open>The \<open>base64\<close> module\<close>

text \<open>
  The standard alphabet: \<open>A\<close>..\<open>Z\<close>, \<open>a\<close>..\<open>z\<close>, \<open>0\<close>..\<open>9\<close>, \<open>+\<close> and \<open>/\<close>.
  \<open>b64_char\<close> is the table of the encoder, \<open>b64_value\<close> the table of the decoder
  (\<open>None\<close> for a character outside the alphabet).
\<close>

definition b64_char :: "byte \<Rightarrow> char" where
  "b64_char v =
     (let n = unat v
      in if n < 26 then char_of (65 + n)
         else if n < 52 then char_of (71 + n)
         else if n < 62 then char_of (n - 4)
         else if n = 62 then CHR ''+''
         else CHR ''/'')"

definition b64_value :: "char \<Rightarrow> byte option" where
  "b64_value c =
     (let n = (of_char c :: nat)
      in if 65 \<le> n \<and> n \<le> 90 then Some (of_nat (n - 65))
         else if 97 \<le> n \<and> n \<le> 122 then Some (of_nat (n - 71))
         else if 48 \<le> n \<and> n \<le> 57 then Some (of_nat (n + 4))
         else if c = CHR ''+'' then Some 62
         else if c = CHR ''/'' then Some 63
         else None)"

text \<open>
  \<open>base64.b64encode\<close>: three bytes \<open>a\<close>, \<open>b\<close>, \<open>c\<close> carry four groups of six bits.
  One or two remaining bytes are completed with zero bits and give two or three
  characters followed by the padding \<open>=\<close>.
\<close>

definition sextet0 :: "byte \<Rightarrow> byte" where
  "sextet0 a = drop_bit 2 a"

definition sextet1 :: "byte \<Rightarrow> byte \<Rightarrow> byte" where
  "sextet1 a b = push_bit 4 (a AND 3) OR drop_bit 4 b"

definition sextet2 :: "byte \<Rightarrow> byte \<Rightarrow> byte" where
  "sextet2 b c = push_bit 2 (b AND 15) OR drop_bit 6 c"

definition sextet3 :: "byte \<Rightarrow> byte" where
  "sextet3 c = c AND 63"

fun b64encode :: "bytes \<Rightarrow> string" where
  "b64encode [] = []"
| "b64encode [a] =
     [b64_char (sextet0 a), b64_char (sextet1 a 0), CHR ''='', CHR ''='']"
| "b64encode [a, b] =
     [b64_char (sextet0 a), b64_char (sextet1 a b), b64_char (sextet2 b 0), CHR ''='']"
| "b64encode (a # b # c # rest) =
     [b64_char (sextet0 a), b64_char (sextet1 a b), b64_char (sextet2 b c),
      b64_char (sextet3 c)] @ b64encode rest"

text \<open>
  \<open>binascii.a2b_base64\<close> in its default, non-strict mode, as \<open>base64.b64decode\<close> calls
  it.  The loop over the characters keeps \<open>quad_pos\<close> (position in the current group of
  four), \<open>leftchar\<close> (bits not yet written) and \<open>pads\<close> (padding characters seen in a
  row).  A character outside the alphabet is skipped.  A padding character ends the
  decoding when it completes a group; otherwise it is skipped.  At the end of the input
  an incomplete group raises \<open>binascii.Error\<close>.
\<close>

fun a2b_loop :: "string \<Rightarrow> nat \<Rightarrow> byte \<Rightarrow> nat \<Rightarrow> bytes \<Rightarrow> py_error + bytes" where
  "a2b_loop [] quad_pos leftchar pads bin_data =
     (if quad_pos \<noteq> 0 then Inl binascii_Error else Inr bin_data)"
| "a2b_loop (this_ch # rest) quad_pos leftchar pads bin_data =
     (if this_ch = CHR ''='' then
        (if quad_pos \<ge> 2 \<and> quad_pos + (pads + 1) \<ge> 4 then Inr bin_data
         else a2b_loop rest quad_pos leftchar (if quad_pos \<ge> 2 then pads + 1 else pads) bin_data)
      else
        (case b64_value this_ch of
           None \<Rightarrow> a2b_loop rest quad_pos leftchar pads bin_data
         | Some v \<Rightarrow>
            if quad_pos = 0 then a2b_loop rest 1 v 0 bin_data
            else if quad_pos = 1 then
              a2b_loop rest 2 (v AND 15) 0 (bin_data @ [push_bit 2 leftchar OR drop_bit 4 v])
            else if quad_pos = 2 then
              a2b_loop rest 3 (v AND 3) 0 (bin_data @ [push_bit 4 leftchar OR drop_bit 2 v])
            else
              a2b_loop rest 0 0 0 (bin_data @ [push_bit 6 leftchar OR v])))"

text \<open>
  \<open>base64.b64decode(s)\<close> for a \<open>str\<close> argument: the text is first encoded as ASCII, which
  raises ValueError for a character above 127.
\<close>

definition b64decode :: "string \<Rightarrow> py_error + bytes" where
  "b64decode s =
     (if \<exists>c \<in> set s. (of_char c :: nat) \<ge> 128 then Inl ValueError
      else a2b_loop s 0 0 0 [])"

section \<open>AES-256 in GCM mode, as provided by \<open>Crypto.Cipher.AES\<close>\<close>

text \<open>
  \<open>aes_utils.py\<close> calls the block cipher through the PyCryptodome library:
  \<open>AES.new(key, AES.MODE_GCM, iv)\<close>, then \<open>encrypt_and_digest\<close> or \<open>decrypt\<close>.
  The library is modelled by the algorithms it implements: the AES block cipher with a
  256-bit key (FIPS 197) and the Galois/Counter mode (NIST SP 800-38D) with a 96-bit
  nonce and a 16-byte tag.
\<close>

subsection \<open>The block cipher\<close>

definition xtime :: "byte \<Rightarrow> byte" where
  "xtime a = (if bit a 7 then push_bit 1 a XOR 0x1b else push_bit 1 a)"

text \<open>
  The substitution table, one row for each value of the high four bits of the byte and
  one column for each value of the low four bits.
\<close>

definition sbox :: "byte list list" where
  "sbox =
    [[0x63, 0x7c, 0x77, 0x7b, 0xf2, 0x6b, 0x6f, 0xc5, 0x30, 0x01, 0x67, 0x2b, 0xfe, 0xd7, 0xab, 0x76],
     [0xca, 0x82, 0xc9, 0x7d, 0xfa, 0x59, 0x47, 0xf0, 0xad, 0xd4, 0xa2, 0xaf, 0x9c, 0xa4, 0x72, 0xc0],
     [0xb7, 0xfd, 0x93, 0x26, 0x36, 0x3f, 0xf7, 0xcc, 0x34, 0xa5, 0xe5, 0xf1, 0x71, 0xd8, 0x31, 0x15],
     [0x04, 0xc7, 0x23, 0xc3, 0x18, 0x96, 0x05, 0x9a, 0x07, 0x12, 0x80, 0xe2, 0xeb, 0x27, 0xb2, 0x75],
     [0x09, 0x83, 0x2c, 0x1a, 0x1b, 0x6e, 0x5a, 0xa0, 0x52, 0x3b, 0xd6, 0xb3, 0x29, 0xe3, 0x2f, 0x84],
     [0x53, 0xd1, 0x00, 0xed, 0x20, 0xfc, 0xb1, 0x5b, 0x6a, 0xcb, 0xbe, 0x39, 0x4a, 0x4c, 0x58, 0xcf],
     [0xd0, 0xef, 0xaa, 0xfb, 0x43, 0x4d, 0x33, 0x85, 0x45, 0xf9, 0x02, 0x7f, 0x50, 0x3c, 0x9f, 0xa8],
     [0x51, 0xa3, 0x40, 0x8f, 0x92, 0x9d, 0x38, 0xf5, 0xbc, 0xb6, 0xda, 0x21, 0x10, 0xff, 0xf3, 0xd2],
     [0xcd, 0x0c, 0x13, 0xec, 0x5f, 0x97, 0x44, 0x17, 0xc4, 0xa7, 0x7e, 0x3d, 0x64, 0x5d, 0x19, 0x73],
     [0x60, 0x81, 0x4f, 0xdc, 0x22, 0x2a, 0x90, 0x88, 0x46, 0xee, 0xb8, 0x14, 0xde, 0x5e, 0x0b, 0xdb],
     [0xe0, 0x32, 0x3a, 0x0a, 0x49, 0x06, 0x24, 0x5c, 0xc2, 0xd3, 0xac, 0x62, 0x91, 0x95, 0xe4, 0x79],
     [0xe7, 0xc8, 0x37, 0x6d, 0x8d, 0xd5, 0x4e, 0xa9, 0x6c, 0x56, 0xf4, 0xea, 0x65, 0x7a, 0xae, 0x08],
     [0xba, 0x78, 0x25, 0x2e, 0x1c, 0xa6, 0xb4, 0xc6, 0xe8, 0xdd, 0x74, 0x1f, 0x4b, 0xbd, 0x8b, 0x8a],
     [0x70, 0x3e, 0xb5, 0x66, 0x48, 0x03, 0xf6, 0x0e, 0x61, 0x35, 0x57, 0xb9, 0x86, 0xc1, 0x1d, 0x9e],
     [0xe1, 0xf8, 0x98, 0x11, 0x69, 0xd9, 0x8e, 0x94, 0x9b, 0x1e, 0x87, 0xe9, 0xce, 0x55, 0x28, 0xdf],
     [0x8c, 0xa1, 0x89, 0x0d, 0xbf, 0xe6, 0x42, 0x68, 0x41, 0x99, 0x2d, 0x0f, 0xb0, 0x54, 0xbb, 0x16]]"

definition sub_byte :: "byte \<Rightarrow> byte" where
  "sub_byte b = sbox ! unat (drop_bit 4 b) ! unat (b AND 15)"

definition sub_bytes :: "bytes \<Rightarrow> bytes" where
  "sub_bytes st = map sub_byte st"

definition rot_word :: "bytes \<Rightarrow> bytes" where
  "rot_word w = drop 1 w @ take 1 w"

definition xor_bytes :: "bytes \<Rightarrow> bytes \<Rightarrow> bytes" where
  "xor_bytes xs ys = map2 (XOR) xs ys"

text \<open>
  Key expansion for eight key words and fourteen rounds: sixty words of four bytes.
  \<open>i\<close> is the index of the word being added, \<open>rcon\<close> the round constant.
\<close>

fun key_expansion_loop :: "nat \<Rightarrow> nat \<Rightarrow> byte \<Rightarrow> bytes list \<Rightarrow> bytes list" where
  "key_expansion_loop 0 i rcon w = w"
| "key_expansion_loop (Suc n) i rcon w =
     (let t = w ! (i - 1)
      in if i mod 8 = 0 then
           (let t = sub_bytes (rot_word t);
                t = xor_bytes t [rcon, 0, 0, 0]
            in key_expansion_loop n (i + 1) (xtime rcon) (w @ [xor_bytes (w ! (i - 8)) t]))
         else if i mod 8 = 4 then
           key_expansion_loop n (i + 1) rcon (w @ [xor_bytes (w ! (i - 8)) (sub_bytes t)])
         else
           key_expansion_loop n (i + 1) rcon (w @ [xor_bytes (w ! (i - 8)) t]))"

definition key_expansion :: "bytes \<Rightarrow> bytes list" where
  "key_expansion key = key_expansion_loop 52 8 1 (chunks 4 key)"

text \<open>
  The state is the list of its sixteen bytes, column after column (byte \<open>4 * c + r\<close> is
  row \<open>r\<close> of column \<open>c\<close>).
\<close>

definition add_round_key :: "bytes \<Rightarrow> bytes list \<Rightarrow> nat \<Rightarrow> bytes" where
  "add_round_key st w r = xor_bytes st (concat (take 4 (drop (4 * r) w)))"

definition shift_rows :: "bytes \<Rightarrow> bytes" where
  "shift_rows st = map (\<lambda>i. st ! (4 * ((i div 4 + i mod 4) mod 4) + i mod 4)) [0..<16]"

definition mix_column :: "bytes \<Rightarrow> bytes" where
  "mix_column col =
     (let a0 = col ! 0; a1 = col ! 1; a2 = col ! 2; a3 = col ! 3
      in [xtime a0 XOR (xtime a1 XOR a1) XOR a2 XOR a3,
          a0 XOR xtime a1 XOR (xtime a2 XOR a2) XOR a3,
          a0 XOR a1 XOR xtime a2 XOR (xtime a3 XOR a3),
          (xtime a0 XOR a0) XOR a1 XOR a2 XOR xtime a3])"

definition mix_columns :: "bytes \<Rightarrow> bytes" where
  "mix_columns st = concat (map mix_column (chunks 4 st))"

definition aes_round :: "bytes list \<Rightarrow> nat \<Rightarrow> bytes \<Rightarrow> bytes" where
  "aes_round w r st = add_round_key (mix_columns (shift_rows (sub_bytes st))) w r"

definition aes_encrypt_block :: "bytes list \<Rightarrow> bytes \<Rightarrow> bytes" where
  "aes_encrypt_block w block =
     (let st = add_round_key block w 0;
          st = fold (aes_round w) [1..<14] st
      in add_round_key (shift_rows (sub_bytes st)) w 14)"

subsection \<open>Counter mode\<close>

text \<open>
  With a 12-byte nonce the counter blocks are the nonce followed by a 32-bit big-endian
  counter.  Counter value 1 is kept for the tag; the data are encrypted with the
  counter values 2, 3, ...  Byte \<open>j\<close> of the key stream is byte \<open>j mod 16\<close> of the
  encryption of counter block \<open>j div 16 + 2\<close>.  Encryption and decryption are the same
  operation: the exclusive or of the data with the key stream.
\<close>

definition be32 :: "nat \<Rightarrow> bytes" where
  "be32 n = [of_nat (n div 16777216), of_nat (n div 65536), of_nat (n div 256), of_nat n]"

definition counter_block :: "bytes \<Rightarrow> nat \<Rightarrow> bytes" where
  "counter_block nonce n = nonce @ be32 n"

definition keystream_byte :: "bytes list \<Rightarrow> bytes \<Rightarrow> nat \<Rightarrow> byte" where
  "keystream_byte w nonce j = aes_encrypt_block w (counter_block nonce (j div 16 + 2)) ! (j mod 16)"

definition keystream :: "bytes \<Rightarrow> bytes \<Rightarrow> nat \<Rightarrow> bytes" where
  "keystream key nonce n = map (keystream_byte (key_expansion key) nonce) [0..<n]"

definition gcm_crypt :: "bytes \<Rightarrow> bytes \<Rightarrow> bytes \<Rightarrow> bytes" where
  "gcm_crypt key nonce data = xor_bytes data (keystream key nonce (length data))"

subsection \<open>The authentication tag\<close>

text \<open>
  Blocks are 128-bit words, the first byte being the most significant one.
  \<open>gf_mult\<close> is the multiplication of the field with \<open>2 ^ 128\<close> elements used by GCM.
\<close>

type_synonym block = "128 word"

definition block_of_bytes :: "bytes \<Rightarrow> block" where
  "block_of_bytes bs = foldl (\<lambda>acc b. push_bit 8 acc OR ucast b) 0 bs"

definition bytes_of_block :: "block \<Rightarrow> bytes" where
  "bytes_of_block x = map (\<lambda>i. ucast (drop_bit (8 * (15 - i)) x)) [0..<16]"

fun gf_mult_loop :: "nat \<Rightarrow> nat \<Rightarrow> block \<Rightarrow> block \<Rightarrow> block \<Rightarrow> block" where
  "gf_mult_loop 0 i x v z = z"
| "gf_mult_loop (Suc n) i x v z =
     gf_mult_loop n (i + 1) x
       (if bit v 0 then drop_bit 1 v XOR push_bit 120 0xE1 else drop_bit 1 v)
       (if bit x (127 - i) then z XOR v else z)"

definition gf_mult :: "block \<Rightarrow> block \<Rightarrow> block" where
  "gf_mult x y = gf_mult_loop 128 0 x y 0"

definition ghash :: "block \<Rightarrow> block list \<Rightarrow> block" where
  "ghash h blocks = foldl (\<lambda>y b. gf_mult (y XOR b) h) 0 blocks"

definition pad16 :: "bytes \<Rightarrow> bytes" where
  "pad16 bs = bs @ replicate ((16 - length bs mod 16) mod 16) 0"

text \<open>
  The tag over a ciphertext, without associated data: GHASH of the padded ciphertext and
  of the block holding the two bit lengths, masked with the encryption of counter
  block 1.
\<close>

definition gcm_digest :: "bytes \<Rightarrow> bytes \<Rightarrow> bytes \<Rightarrow> bytes" where
  "gcm_digest key nonce ciphertext =
     (let w = key_expansion key;
          h = block_of_bytes (aes_encrypt_block w (replicate 16 0));
          blocks = map block_of_bytes (chunks 16 (pad16 ciphertext))
                   @ [of_nat (8 * length ciphertext)];
          s = ghash h blocks;
          ej0 = block_of_bytes (aes_encrypt_block w (counter_block nonce 1))
      in bytes_of_block (s XOR ej0))"

text \<open>
  The two methods of the cipher object that \<open>aes_utils.py\<close> uses.
  \<open>encrypt_and_digest\<close> returns the ciphertext and the tag; \<open>decrypt\<close> returns the
  plaintext and checks nothing (the checking methods are \<open>verify\<close> and
  \<open>decrypt_and_verify\<close>).
\<close>

definition encrypt_and_digest :: "bytes \<Rightarrow> bytes \<Rightarrow> bytes \<Rightarrow> bytes \<times> bytes" where
  "encrypt_and_digest key nonce msg =
     (let ciphertext = gcm_crypt key nonce msg
      in (ciphertext, gcm_digest key nonce ciphertext))"

definition decrypt :: "bytes \<Rightarrow> bytes \<Rightarrow> bytes \<Rightarrow> bytes" where
  "decrypt key nonce ciphertext = gcm_crypt key nonce ciphertext"

section \<open>aes\_utils.py\<close>

definition ascii_bytes :: "string \<Rightarrow> bytes" where
  "ascii_bytes s = map (\<lambda>c. of_nat (of_char c)) s"

text \<open>The key and the nonce are the constants written in both functions.\<close>

definition key :: bytes where
  "key = ascii_bytes ''12345678901234567890123456789012''"

definition iv :: bytes where
  "iv = ascii_bytes ''123456789012''"

text \<open>
  \<open>encrypt_AES_256\<close> keeps the ciphertext and drops the tag
  (\<open>ciphertxt, _ = cipher.encrypt_and_digest(msg)\<close>); the result is the base64 text of the
  ciphertext.  \<open>decrypt_AES_256\<close> decodes the base64 text, which may raise, and
  returns \<open>cipher.decrypt(ciphertext)\<close>.
\<close>

definition encrypt_AES_256 :: "bytes \<Rightarrow> string" where
  "encrypt_AES_256 msg =
     (let (ciphertxt, _) = encrypt_and_digest key iv msg
      in b64encode ciphertxt)"

definition decrypt_AES_256 :: "string \<Rightarrow> py_error + bytes" where
  "decrypt_AES_256 ciphertxt_b64 =
     (case b64decode ciphertxt_b64 of
        Inl e \<Rightarrow> Inl e
      | Inr ciphertext \<Rightarrow> Inr (decrypt key iv ciphertext))"

section \<open>Corrupting an envelope\<close>

text \<open>
  A bit-flip of a text: bit \<open>k\<close> of the character at position \<open>i\<close> is inverted, every other
  character is unchanged.
\<close>

definition flip_char :: "nat \<Rightarrow> char \<Rightarrow> char" where
  "flip_char k c = char_of ((of_char c :: nat) XOR 2 ^ k)"

definition flip_bit :: "nat \<Rightarrow> nat \<Rightarrow> string \<Rightarrow> string" where
  "flip_bit i k s = s[i := flip_char k (s ! i)]"

section \<open>Properties of \<open>split_string\<close>\<close>

subsection \<open>Ceiling division\<close>

lemma ceil_div_ceiling: "ceil_div a b = \<lceil>real_of_int a / real_of_int b\<rceil>"
  by (simp add: ceil_div_def ceiling_divide_eq_div)

lemma ceil_div_cover: "0 < n \<Longrightarrow> a \<le> ceil_div a n * n"
proof -
  assume n: "0 < n"
  have "(- a) div n * n + (- a) mod n = - a" by simp
  moreover have "0 \<le> (- a) mod n" using n by simp
  ultimately have "(- a) div n * n \<le> - a" by linarith
  then show ?thesis by (simp add: ceil_div_def)
qed

lemma ceil_div_pos: "0 < n \<Longrightarrow> 0 < a \<Longrightarrow> 0 < ceil_div a n"
proof (rule ccontr)
  assume n: "0 < n" and a: "0 < a" and "\<not> 0 < ceil_div a n"
  then have "ceil_div a n \<le> 0" by simp
  then have "ceil_div a n * n \<le> 0" using n by (simp add: mult_le_0_iff)
  with ceil_div_cover [OF n, of a] a show False by linarith
qed

lemma ceil_div_dvd: "n \<noteq> 0 \<Longrightarrow> n dvd a \<Longrightarrow> ceil_div a n = a div n"
proof -
  assume n: "n \<noteq> 0" and "n dvd a"
  then obtain k where a: "a = n * k" by (auto elim: dvdE)
  have "(- a) div n = (n * (- k)) div n" using a by simp
  also have "\<dots> = - k" using n by (rule nonzero_mult_div_cancel_left)
  finally show ?thesis using a n by (simp add: ceil_div_def)
qed

lemma div_mult_add_less: "r < k \<Longrightarrow> (k * n + r) div k = n" for r k n :: nat
  by simp

lemma ceil_le: "0 < k \<Longrightarrow> a \<le> k * n \<Longrightarrow> (a + k - 1) div k \<le> n" for a k n :: nat
proof -
  assume k: "0 < k" and a: "a \<le> k * n"
  have "(a + k - 1) div k \<le> (k * n + (k - 1)) div k"
    using a k by (intro div_le_mono) linarith
  also have "\<dots> = n" by (rule div_mult_add_less) (use k in simp)
  finally show ?thesis .
qed

lemma ceil_pos: "0 < k \<Longrightarrow> 0 < a \<Longrightarrow> 0 < (a + k - 1) div k" for a k :: nat
proof -
  assume k: "0 < k" and a: "0 < a"
  have "k div k \<le> (a + k - 1) div k" using a by (intro div_le_mono) linarith
  then show ?thesis using k by simp
qed

lemma ceil_exact: "0 < q \<Longrightarrow> (n * q + q - 1) div q = n" for n q :: nat
proof -
  assume q: "0 < q"
  have "n * q + q - 1 = q * n + (q - 1)" using q by (simp add: mult.commute)
  moreover have "(q * n + (q - 1)) div q = n" by (rule div_mult_add_less) (use q in simp)
  ultimately show ?thesis by metis
qed

subsection \<open>The loop computes the slices\<close>

lemma chunks_Nil [simp]: "chunks k [] = []"
  by (simp add: chunks.simps)

lemma chunks_short: "xs \<noteq> [] \<Longrightarrow> length xs \<le> k \<Longrightarrow> chunks k xs = [xs]"
  by (subst chunks.simps) (cases xs; auto)

lemma chunks_step: "0 < k \<Longrightarrow> length ys = k \<Longrightarrow> chunks k (ys @ xs) = ys # chunks k xs"
  by (subst chunks.simps) auto

lemma split_loop_chunks:
  "0 < k \<Longrightarrow> int (length out) = c \<Longrightarrow> c < int k \<Longrightarrow>
   finish (split_loop (int k) xs (out, c, acc)) = acc @ chunks k (out @ xs)"
proof (induction xs arbitrary: out c acc)
  case Nil
  then show ?case
    by (cases "out = []") (auto simp: finish_def chunks_short)
next
  case (Cons x xs)
  show ?case
  proof (cases "c + 1 = int k")
    case True
    with Cons.prems have len: "length (out @ [x]) = k" by simp
    have "finish (split_loop (int k) (x # xs) (out, c, acc))
        = finish (split_loop (int k) xs ([], 0, acc @ [out @ [x]]))"
      using True by simp
    also have "\<dots> = (acc @ [out @ [x]]) @ chunks k ([] @ xs)"
      using Cons.prems by (intro Cons.IH) auto
    also have "\<dots> = acc @ chunks k ((out @ [x]) @ xs)"
      using chunks_step [OF Cons.prems(1) len, of xs] by simp
    finally show ?thesis by simp
  next
    case False
    have "finish (split_loop (int k) (x # xs) (out, c, acc))
        = finish (split_loop (int k) xs (out @ [x], c + 1, acc))"
      using False by simp
    also have "\<dots> = acc @ chunks k ((out @ [x]) @ xs)"
      using Cons.prems False by (intro Cons.IH) auto
    finally show ?thesis by simp
  qed
qed

lemma div_add_less_one: "m < k \<Longrightarrow> (k + m) div k = Suc 0" for m k :: nat
  by (cases "k = 0") (simp_all add: div_add_self1)

lemma concat_chunks: "0 < k \<Longrightarrow> concat (chunks k xs) = xs"
proof (induction k xs rule: chunks.induct)
  case (1 k xs)
  then show ?case by (subst chunks.simps) auto
qed

lemma ceil_nat_step:
  "0 < k \<Longrightarrow> k < n \<Longrightarrow> Suc ((n - k + k - 1) div k) = (n + k - 1) div k" for n k :: nat
proof -
  assume k: "0 < k" and n: "k < n"
  obtain m where m: "n = Suc m" using n by (cases n) auto
  have "(n + k - 1) div k = (m + k) div k" using m by simp
  also have "\<dots> = Suc (m div k)" using k div_add_self2 [of k m] by simp
  finally show ?thesis using m n by simp
qed

lemma ceil_nat_short: "xs \<noteq> [] \<Longrightarrow> length xs \<le> k \<Longrightarrow> (length xs + k - 1) div k = Suc 0"
proof -
  assume ne: "xs \<noteq> []" and le: "length xs \<le> k"
  obtain m where m: "length xs = Suc m" using ne by (cases xs) auto
  have "m < k" using le m by simp
  then have "(k + m) div k = Suc 0" by (rule div_add_less_one)
  moreover have "length xs + k - 1 = k + m" using m by simp
  ultimately show ?thesis by simp
qed

lemma length_chunks: "0 < k \<Longrightarrow> length (chunks k xs) = (length xs + k - 1) div k"
proof (induction k xs rule: chunks.induct)
  case (1 k xs)
  show ?case
  proof (cases "xs = []")
    case True
    then show ?thesis using 1(2) by simp
  next
    case False
    show ?thesis
    proof (cases "length xs \<le> k")
      case True
      show ?thesis
        using chunks_short [OF False True] ceil_nat_short [OF False True] by simp
    next
      case gt: False
      have "length (chunks k xs) = Suc (length (chunks k (drop k xs)))"
        using False 1(2) by (subst chunks.simps) simp
      also have "\<dots> = Suc ((length xs - k + k - 1) div k)"
        using 1 False by simp
      also have "\<dots> = (length xs + k - 1) div k"
        using gt 1(2) by (intro ceil_nat_step) auto
      finally show ?thesis .
    qed
  qed
qed

lemma nth_chunks: "0 < k \<Longrightarrow> i < length (chunks k xs) \<Longrightarrow> chunks k xs ! i = take k (drop (i * k) xs)"
proof (induction k xs arbitrary: i rule: chunks.induct)
  case (1 k xs)
  from 1(3) have ne: "xs \<noteq> []" by auto
  have eq: "chunks k xs = take k xs # chunks k (drop k xs)"
    using ne 1(2) by (subst chunks.simps) simp
  show ?case
  proof (cases i)
    case 0
    then show ?thesis using eq by simp
  next
    case (Suc j)
    then have "j < length (chunks k (drop k xs))" using 1(3) eq by simp
    then have "chunks k (drop k xs) ! j = take k (drop (j * k) (drop k xs))"
      using 1 ne by simp
    then show ?thesis using eq Suc by (simp add: add.commute)
  qed
qed

lemma ceil_div_nat: "0 < m \<Longrightarrow> ceil_div (int a) (int m) = int ((a + m - 1) div m)"
proof -
  assume m: "0 < m"
  define q where "q = (a + m - 1) div m"
  have up: "a \<le> q * m"
  proof -
    have "a + m - 1 < (q + 1) * m"
      unfolding q_def using m dividend_less_div_times [of m "a + m - 1"] by (simp add: algebra_simps)
    then show ?thesis using m by (simp add: algebra_simps)
  qed
  have low: "q * m < a + m"
  proof -
    have "q * m \<le> a + m - 1" unfolding q_def by simp
    then show ?thesis using m by linarith
  qed
  have "\<lceil>real a / real m\<rceil> = int q"
  proof (rule ceiling_unique)
    have "real q * real m < real a + real m" using low by (metis of_nat_add of_nat_less_iff of_nat_mult)
    then have "(real q - 1) * real m < real a" by (simp add: algebra_simps)
    then show "real_of_int (int q) - 1 < real a / real m"
      using m by (simp add: pos_less_divide_eq)
    have "real a \<le> real q * real m" using up by (metis of_nat_le_iff of_nat_mult)
    then show "real a / real m \<le> real_of_int (int q)"
      using m by (simp add: pos_divide_le_eq)
  qed
  then show ?thesis by (simp add: ceil_div_ceiling q_def)
qed

lemma chunks_nonempty: "[] \<notin> set (chunks k xs)"
proof (induction k xs rule: chunks.induct)
  case (1 k xs)
  show ?case
  proof (cases "xs = [] \<or> k = 0")
    case True
    then show ?thesis by (subst chunks.simps) simp
  next
    case False
    then have "chunks k xs = take k xs # chunks k (drop k xs)"
      by (subst chunks.simps) simp
    moreover have "take k xs \<noteq> []" using False by simp
    ultimately show ?thesis using 1 False by auto
  qed
qed

lemma collect_chunks_Some: "[] \<notin> set fs \<Longrightarrow> collect_chunks (map Some fs) = fs"
  by (induction fs) auto

lemma split_string_finish:
  "count \<noteq> 0 \<Longrightarrow>
   split_string s count = Inr (finish (split_loop (ceil_div (int (length s)) count) s ([], 0, [])))"
  by (simp add: split_string_def finish_def Let_def split: prod.splits)

lemma split_string_chunks:
  assumes "1 \<le> n"
  shows "split_string s n = Inr (chunks (nat (ceil_div (int (length s)) n)) s)"
proof (cases "s = []")
  case True
  then show ?thesis using assms by (simp add: split_string_finish finish_def)
next
  case False
  define k where "k = nat (ceil_div (int (length s)) n)"
  have "0 < ceil_div (int (length s)) n"
    using assms False by (intro ceil_div_pos) auto
  then have k: "0 < k" "int k = ceil_div (int (length s)) n"
    by (simp_all add: k_def)
  have "finish (split_loop (int k) s ([], 0, [])) = [] @ chunks k ([] @ s)"
    using k(1) by (intro split_loop_chunks) auto
  then show ?thesis
    using assms k(2) by (simp add: split_string_finish k_def)
qed

lemma slice_full:
  assumes "0 < k" and "Suc i < (length xs + k - 1) div k"
  shows "length (take k (drop (i * k) xs)) = k"
proof -
  have "Suc (Suc i) \<le> (length xs + k - 1) div k" using assms(2) by simp
  then have "Suc (Suc i) * k \<le> length xs + k - 1"
    using assms(1) by (simp add: less_eq_div_iff_mult_less_eq)
  then have "i * k + k + k \<le> length xs + k - 1" by (simp add: algebra_simps)
  then have "i * k + k \<le> length xs" using assms(1) by linarith
  then show ?thesis by simp
qed

text \<open>
  Claim C5.  For every string \<open>s\<close> and every count \<open>n \<ge> 1\<close>, \<open>split_string(s, n)\<close>
  returns a list of fragments whose concatenation in order is exactly \<open>s\<close>; the join
  performed by \<open>reveal_chunks_from_frames\<close> on these fragments (each one revealed from
  its frame) gives \<open>s\<close> as well, because no fragment is empty.  The fragments are the
  contiguous slices of \<open>s\<close> of length \<open>ceil(len(s)/n)\<close>, taken in order, and every
  fragment except possibly the last has exactly that length.
\<close>

theorem split_string_join:
  assumes "1 \<le> n"
  shows "\<exists>fs. split_string s n = Inr fs
          \<and> concat fs = s
          \<and> join_chunks (map Some fs) = s
          \<and> (\<forall>i < length fs.
                fs ! i = take (nat \<lceil>real (length s) / real_of_int n\<rceil>)
                              (drop (i * nat \<lceil>real (length s) / real_of_int n\<rceil>) s))
          \<and> (\<forall>i. Suc i < length fs \<longrightarrow>
                length (fs ! i) = nat \<lceil>real (length s) / real_of_int n\<rceil>)"
proof (cases "s = []")
  case True
  have "split_string s n = Inr []"
    using assms True by (simp add: split_string_chunks)
  then show ?thesis using True by (simp add: join_chunks_def)
next
  case False
  define k where "k = nat \<lceil>real (length s) / real_of_int n\<rceil>"
  have keq: "k = nat (ceil_div (int (length s)) n)"
    by (simp add: k_def ceil_div_ceiling)
  have "0 < ceil_div (int (length s)) n"
    using assms False by (intro ceil_div_pos) auto
  then have k: "0 < k" by (simp add: keq)
  have fs: "split_string s n = Inr (chunks k s)"
    using assms by (simp add: split_string_chunks keq)
  have c1: "concat (chunks k s) = s" using k by (rule concat_chunks)
  have c2: "join_chunks (map Some (chunks k s)) = s"
    using c1 by (simp add: join_chunks_def collect_chunks_Some chunks_nonempty)
  have c3: "\<forall>i < length (chunks k s). chunks k s ! i = take k (drop (i * k) s)"
    using k by (simp add: nth_chunks)
  have c4: "\<forall>i. Suc i < length (chunks k s) \<longrightarrow> length (chunks k s ! i) = k"
  proof (intro allI impI)
    fix i assume i: "Suc i < length (chunks k s)"
    then have "chunks k s ! i = take k (drop (i * k) s)" using k by (simp add: nth_chunks)
    moreover have "length (take k (drop (i * k) s)) = k"
      using k i by (intro slice_full) (simp_all add: length_chunks)
    ultimately show "length (chunks k s ! i) = k" by simp
  qed
  show ?thesis
    unfolding k_def [symmetric] using fs c1 c2 c3 c4 by blast
qed

theorem split_string_join_witness:
  "(1::int) \<le> 2
   \<and> (\<exists>fs. split_string ''abcde'' 2 = Inr fs \<and> concat fs = ''abcde''
          \<and> join_chunks (map Some fs) = ''abcde'')"
  using split_string_join [of 2 "''abcde''"] by auto

text \<open>
  Claim C6 says that \<open>split_string(s, n)\<close> has exactly \<open>n\<close> fragments whenever
  \<open>1 \<le> n \<le> len(s)\<close>.  The code cuts slices of \<open>ceil(len(s)/n)\<close> characters, so a
  string of five characters split with \<open>n = 4\<close> is cut into slices of two characters:
  three fragments, not four.
\<close>

theorem split_string_count_counterexample:
  "1 \<le> (4::int) \<and> 4 \<le> int (length ''abcde'')
   \<and> split_string ''abcde'' 4 = Inr [''ab'', ''cd'', ''e'']
   \<and> \<not> (\<exists>fs. split_string ''abcde'' 4 = Inr fs \<and> int (length fs) = 4)"
  by (simp add: split_string_def ceil_div_def)

text \<open>
  Claim C6 as amended.  For every non-empty string \<open>s\<close> and every \<open>n\<close> with
  \<open>1 \<le> n \<le> len(s)\<close>, \<open>split_string(s, n)\<close> produces
  \<open>ceil(len(s) / ceil(len(s)/n))\<close> fragments.  That number is at least one and at most
  \<open>n\<close>, and it is exactly \<open>n\<close> when \<open>n\<close> divides \<open>len(s)\<close>.
\<close>

theorem split_string_count:
  assumes "s \<noteq> []" and "1 \<le> n" and "n \<le> int (length s)"
  shows "\<exists>fs. split_string s n = Inr fs
          \<and> int (length fs) = \<lceil>real (length s) / real_of_int \<lceil>real (length s) / real_of_int n\<rceil>\<rceil>
          \<and> 1 \<le> length fs
          \<and> int (length fs) \<le> n
          \<and> (n dvd int (length s) \<longrightarrow> int (length fs) = n)"
proof -
  define p where "p = ceil_div (int (length s)) n"
  define k where "k = nat p"
  have ppos: "0 < p" unfolding p_def using assms by (intro ceil_div_pos) auto
  then have k: "0 < k" "int k = p" by (simp_all add: k_def)
  have fs: "split_string s n = Inr (chunks k s)"
    using assms(2) by (simp add: split_string_chunks k_def p_def)
  have len: "length (chunks k s) = (length s + k - 1) div k"
    using k(1) by (rule length_chunks)
  have "int (length s) \<le> p * n"
    unfolding p_def using assms(2) by (intro ceil_div_cover) auto
  then have "int (length s) \<le> int (k * nat n)" using k(2) assms(2) by simp
  then have cover: "length s \<le> k * nat n" by linarith
  have a1: "int (length (chunks k s)) = \<lceil>real (length s) / real_of_int p\<rceil>"
  proof -
    have "ceil_div (int (length s)) (int k) = int ((length s + k - 1) div k)"
      using k(1) by (rule ceil_div_nat)
    then show ?thesis using len k(2) by (simp add: ceil_div_ceiling)
  qed
  have a2: "1 \<le> length (chunks k s)"
    using ceil_pos [OF k(1), of "length s"] assms(1) len by simp
  have "length (chunks k s) \<le> nat n"
    unfolding len using k(1) cover by (rule ceil_le)
  then have a3: "int (length (chunks k s)) \<le> n" using assms(2) by linarith
  have a4: "n dvd int (length s) \<longrightarrow> int (length (chunks k s)) = n"
  proof
    assume d: "n dvd int (length s)"
    have "p = int (length s) div n"
      unfolding p_def using assms(2) d by (intro ceil_div_dvd) auto
    then have "int (length s) = n * p" using d by simp
    then have "int (length s) = int (nat n * k)" using k(2) assms(2) by simp
    then have "length s = nat n * k" by linarith
    then have "length (chunks k s) = nat n"
      unfolding len using ceil_exact [OF k(1), of "nat n"] by simp
    then show "int (length (chunks k s)) = n" using assms(2) by simp
  qed
  show ?thesis
    using fs a1 a2 a3 a4 unfolding p_def ceil_div_ceiling by auto
qed

theorem split_string_count_witness:
  "''abcdef'' \<noteq> [] \<and> (1::int) \<le> 3 \<and> 3 \<le> int (length ''abcdef'')
   \<and> (\<exists>fs. split_string ''abcdef'' 3 = Inr fs \<and> int (length fs) = 3)"
  using split_string_count [of "''abcdef''" 3] by auto

section \<open>Properties of \<open>parse_frames_spec\<close>\<close>

lemma parse_parts_finite:
  "parse_parts ps frames = Inr result \<Longrightarrow> finite frames \<Longrightarrow> finite result"
proof (induction ps arbitrary: frames)
  case Nil
  then show ?case by simp
next
  case (Cons part rest)
  from Cons.prems show ?case
    by (auto simp: Let_def split: if_splits sum.splits prod.splits elim!: Cons.IH)
qed

lemma parse_frames_spec_set:
  assumes "parse_frames_spec spec = Inr xs"
  shows "\<exists>frames. parse_parts (split_on (CHR '','') (strip spec)) {} = Inr frames
           \<and> finite frames \<and> xs = sorted_list_of_set frames"
proof -
  from assms obtain frames
    where p: "parse_parts (split_on (CHR '','') (strip spec)) {} = Inr frames"
      and xs: "xs = sorted_list_of_set frames"
    by (auto simp: parse_frames_spec_def Let_def split: sum.splits)
  from p have "finite frames" by (rule parse_parts_finite) simp
  with p xs show ?thesis by blast
qed

text \<open>
  Claim C9.  \<open>parse_frames_spec("1,4,6-9,12") = [1,4,6,7,8,9,12]\<close>,
  \<open>parse_frames_spec("1-3") = [1,2,3]\<close> and \<open>parse_frames_spec("5-3") = [3,4,5]\<close>: an
  inclusive range is listed ascending whatever the order of its bounds.  For every
  input, a list returned by \<open>parse_frames_spec\<close> is sorted ascending and has no
  duplicates.
\<close>

theorem parse_frames_spec_sorted:
  "parse_frames_spec ''1,4,6-9,12'' = Inr [1, 4, 6, 7, 8, 9, 12]
   \<and> parse_frames_spec ''1-3'' = Inr [1, 2, 3]
   \<and> parse_frames_spec ''5-3'' = Inr [3, 4, 5]
   \<and> (\<forall>spec xs. parse_frames_spec spec = Inr xs \<longrightarrow> sorted xs \<and> distinct xs)"
proof (intro conjI allI impI)
  show "parse_frames_spec ''1,4,6-9,12'' = Inr [1, 4, 6, 7, 8, 9, 12]" by code_simp
  show "parse_frames_spec ''1-3'' = Inr [1, 2, 3]" by code_simp
  show "parse_frames_spec ''5-3'' = Inr [3, 4, 5]" by code_simp
next
  fix spec xs assume "parse_frames_spec spec = Inr xs"
  then obtain frames where "finite frames" "xs = sorted_list_of_set frames"
    using parse_frames_spec_set by blast
  then show "sorted xs" and "distinct xs" by simp_all
qed

theorem parse_frames_spec_sorted_witness:
  "parse_frames_spec ''5-3'' = Inr [3, 4, 5] \<and> sorted [3, 4, 5 :: int] \<and> distinct [3, 4, 5 :: int]"
proof -
  have r: "parse_frames_spec ''5-3'' = Inr [3, 4, 5]"
    using parse_frames_spec_sorted by blast
  have "sorted [3, 4, 5 :: int] \<and> distinct [3, 4, 5 :: int]"
    using parse_frames_spec_sorted r by blast
  with r show ?thesis by blast
qed

section \<open>Properties of the base64 codec\<close>

subsection \<open>Six-bit groups\<close>

lemma lt64_iff: "v < 64 \<longleftrightarrow> drop_bit 6 v = 0" for v :: byte
proof -
  have "v < 64 \<longleftrightarrow> unat v < 64" by (simp add: word_less_nat_alt)
  also have "\<dots> \<longleftrightarrow> unat v div 64 = 0" by (simp add: div_eq_0_iff)
  also have "\<dots> \<longleftrightarrow> unat (drop_bit 6 v) = 0" by (simp add: drop_bit_eq_div unat_div)
  also have "\<dots> \<longleftrightarrow> drop_bit 6 v = 0" by (simp add: unat_eq_0)
  finally show ?thesis .
qed

lemma masks: "(3 :: byte) = mask 2" "(15 :: byte) = mask 4" "(63 :: byte) = mask 6"
  by (simp_all add: mask_eq_exp_minus_1)

lemma lt8: "n < 8 \<Longrightarrow> n \<in> {0, 1, 2, 3, 4, 5, 6, 7 :: nat}"
  by (simp add: insert_iff) arith

lemmas sextet_defs = sextet0_def sextet1_def sextet2_def sextet3_def

lemma sextet_bounds:
  "sextet0 a < 64" "sextet1 a b < 64" "sextet2 b c < 64" "sextet3 c < 64"
  unfolding lt64_iff sextet_defs masks
  by (rule bit_word_eqI; auto simp add: bit_simps)+

lemma sextets_byte0: "push_bit 2 (sextet0 a) OR drop_bit 4 (sextet1 a b) = a"
  unfolding sextet_defs masks
  by (rule bit_word_eqI)
     (auto simp add: bit_simps numeral_2_eq_2 [symmetric] numeral_3_eq_3 [symmetric] dest!: lt8)

lemma sextets_byte1: "push_bit 4 (sextet1 a b AND 15) OR drop_bit 2 (sextet2 b c) = b"
  unfolding sextet_defs masks
  by (rule bit_word_eqI)
     (auto simp add: bit_simps numeral_2_eq_2 [symmetric] numeral_3_eq_3 [symmetric] dest!: lt8)

lemma sextets_byte2: "push_bit 6 (sextet2 b c AND 3) OR sextet3 c = c"
  unfolding sextet_defs masks
  by (rule bit_word_eqI)
     (auto simp add: bit_simps numeral_2_eq_2 [symmetric] numeral_3_eq_3 [symmetric] dest!: lt8)

lemma b64_char_props:
  assumes "v < 64"
  shows "b64_value (b64_char v) = Some v"
    and "b64_char v \<noteq> CHR ''=''"
    and "(of_char (b64_char v) :: nat) < 128"
proof -
  define n where "n = unat v"
  have n: "n < 64" using assms by (simp add: n_def word_less_nat_alt)
  have v: "v = of_nat n" by (simp add: n_def)
  have c: "b64_char v = (if n < 26 then char_of (65 + n)
         else if n < 52 then char_of (71 + n)
         else if n < 62 then char_of (n - 4)
         else if n = 62 then CHR ''+''
         else CHR ''/'')"
    by (simp add: b64_char_def n_def)
  have v63: "n = 63 \<Longrightarrow> v = 63" using v by simp
  have v62: "n = 62 \<Longrightarrow> v = 62" using v by simp
  have ne: "char_of k \<noteq> CHR ''=''" if "k mod 256 \<noteq> 61" for k :: nat
  proof
    assume "char_of k = CHR ''=''"
    then have "(of_char (char_of k :: char) :: nat) = of_char CHR ''=''" by simp
    then show False using that by simp
  qed
  consider "n < 26" | "26 \<le> n" "n < 52" | "52 \<le> n" "n < 62" | "n = 62" | "n = 63"
    using n by linarith
  then have "b64_value (b64_char v) = Some v \<and> b64_char v \<noteq> CHR ''=''
      \<and> (of_char (b64_char v) :: nat) < 128"
  proof cases
    case 1
    then show ?thesis unfolding c using ne [of "65 + n"] by (auto simp: b64_value_def v)
  next
    case 2
    then show ?thesis unfolding c using ne [of "71 + n"] by (auto simp: b64_value_def v)
  next
    case 3
    then show ?thesis unfolding c using ne [of "n - 4"] by (auto simp: b64_value_def v Let_def)
  next
    case 4
    then show ?thesis unfolding c using v62 by (auto simp: b64_value_def)
  next
    case 5
    then show ?thesis unfolding c using v63 by (auto simp: b64_value_def)
  qed
  then show "b64_value (b64_char v) = Some v"
    and "b64_char v \<noteq> CHR ''=''"
    and "(of_char (b64_char v) :: nat) < 128" by simp_all
qed

subsection \<open>Decoding what the encoder wrote\<close>

lemma a2b_step0:
  "v < 64 \<Longrightarrow> a2b_loop (b64_char v # rest) 0 l p out = a2b_loop rest 1 v 0 out"
  using b64_char_props [of v] by simp

lemma a2b_step1:
  "v < 64 \<Longrightarrow> a2b_loop (b64_char v # rest) 1 l p out
     = a2b_loop rest 2 (v AND 15) 0 (out @ [push_bit 2 l OR drop_bit 4 v])"
  using b64_char_props [of v] by simp

lemma a2b_step2:
  "v < 64 \<Longrightarrow> a2b_loop (b64_char v # rest) 2 l p out
     = a2b_loop rest 3 (v AND 3) 0 (out @ [push_bit 4 l OR drop_bit 2 v])"
  using b64_char_props [of v] by simp

lemma a2b_step3:
  "v < 64 \<Longrightarrow> a2b_loop (b64_char v # rest) 3 l p out
     = a2b_loop rest 0 0 0 (out @ [push_bit 6 l OR v])"
  using b64_char_props [of v] by simp

lemma a2b_pad2: "a2b_loop [CHR ''='', CHR ''=''] 2 l 0 out = Inr out"
  by simp

lemma a2b_pad1: "a2b_loop [CHR ''=''] 3 l 0 out = Inr out"
  by simp

lemma a2b_loop_b64encode: "a2b_loop (b64encode bs) 0 l p out = Inr (out @ bs)"
proof (induction bs arbitrary: l p out rule: b64encode.induct)
  case 1
  show ?case by simp
next
  case (2 a)
  have "a2b_loop (b64encode [a]) 0 l p out
      = a2b_loop [b64_char (sextet0 a), b64_char (sextet1 a 0), CHR ''='', CHR ''=''] 0 l p out"
    by (simp only: b64encode.simps)
  also have "\<dots> = a2b_loop [b64_char (sextet1 a 0), CHR ''='', CHR ''=''] 1 (sextet0 a) 0 out"
    by (rule a2b_step0) (rule sextet_bounds)
  also have "\<dots> = a2b_loop [CHR ''='', CHR ''=''] 2 (sextet1 a 0 AND 15) 0
                        (out @ [push_bit 2 (sextet0 a) OR drop_bit 4 (sextet1 a 0)])"
    by (rule a2b_step1) (rule sextet_bounds)
  also have "\<dots> = Inr (out @ [push_bit 2 (sextet0 a) OR drop_bit 4 (sextet1 a 0)])"
    by (rule a2b_pad2)
  also have "\<dots> = Inr (out @ [a])"
    by (simp only: sextets_byte0)
  finally show ?case .
next
  case (3 a b)
  have "a2b_loop (b64encode [a, b]) 0 l p out
      = a2b_loop [b64_char (sextet0 a), b64_char (sextet1 a b), b64_char (sextet2 b 0), CHR ''='']
                 0 l p out"
    by (simp only: b64encode.simps)
  also have "\<dots> = a2b_loop [b64_char (sextet1 a b), b64_char (sextet2 b 0), CHR ''='']
                        1 (sextet0 a) 0 out"
    by (rule a2b_step0) (rule sextet_bounds)
  also have "\<dots> = a2b_loop [b64_char (sextet2 b 0), CHR ''=''] 2 (sextet1 a b AND 15) 0
                        (out @ [push_bit 2 (sextet0 a) OR drop_bit 4 (sextet1 a b)])"
    by (rule a2b_step1) (rule sextet_bounds)
  also have "\<dots> = a2b_loop [CHR ''=''] 3 (sextet2 b 0 AND 3) 0
                        ((out @ [push_bit 2 (sextet0 a) OR drop_bit 4 (sextet1 a b)])
                         @ [push_bit 4 (sextet1 a b AND 15) OR drop_bit 2 (sextet2 b 0)])"
    by (rule a2b_step2) (rule sextet_bounds)
  also have "\<dots> = Inr ((out @ [push_bit 2 (sextet0 a) OR drop_bit 4 (sextet1 a b)])
                         @ [push_bit 4 (sextet1 a b AND 15) OR drop_bit 2 (sextet2 b 0)])"
    by (rule a2b_pad1)
  also have "\<dots> = Inr (out @ [a, b])"
    by (simp only: sextets_byte0 sextets_byte1 append_assoc append.simps)
  finally show ?case .
next
  case (4 a b c rest)
  have "a2b_loop (b64encode (a # b # c # rest)) 0 l p out
      = a2b_loop (b64_char (sextet0 a) # b64_char (sextet1 a b) # b64_char (sextet2 b c)
                  # b64_char (sextet3 c) # b64encode rest) 0 l p out"
    by (simp only: b64encode.simps append.simps)
  also have "\<dots> = a2b_loop (b64_char (sextet1 a b) # b64_char (sextet2 b c)
                  # b64_char (sextet3 c) # b64encode rest) 1 (sextet0 a) 0 out"
    by (rule a2b_step0) (rule sextet_bounds)
  also have "\<dots> = a2b_loop (b64_char (sextet2 b c) # b64_char (sextet3 c) # b64encode rest)
                        2 (sextet1 a b AND 15) 0
                        (out @ [push_bit 2 (sextet0 a) OR drop_bit 4 (sextet1 a b)])"
    by (rule a2b_step1) (rule sextet_bounds)
  also have "\<dots> = a2b_loop (b64_char (sextet3 c) # b64encode rest) 3 (sextet2 b c AND 3) 0
                        ((out @ [push_bit 2 (sextet0 a) OR drop_bit 4 (sextet1 a b)])
                         @ [push_bit 4 (sextet1 a b AND 15) OR drop_bit 2 (sextet2 b c)])"
    by (rule a2b_step2) (rule sextet_bounds)
  also have "\<dots> = a2b_loop (b64encode rest) 0 0 0
                        (((out @ [push_bit 2 (sextet0 a) OR drop_bit 4 (sextet1 a b)])
                          @ [push_bit 4 (sextet1 a b AND 15) OR drop_bit 2 (sextet2 b c)])
                         @ [push_bit 6 (sextet2 b c AND 3) OR sextet3 c])"
    by (rule a2b_step3) (rule sextet_bounds)
  also have "\<dots> = Inr ((((out @ [push_bit 2 (sextet0 a) OR drop_bit 4 (sextet1 a b)])
                          @ [push_bit 4 (sextet1 a b AND 15) OR drop_bit 2 (sextet2 b c)])
                         @ [push_bit 6 (sextet2 b c AND 3) OR sextet3 c]) @ rest)"
    by (rule 4)
  also have "\<dots> = Inr (out @ a # b # c # rest)"
    by (simp only: sextets_byte0 sextets_byte1 sextets_byte2 append_assoc append.simps)
  finally show ?case .
qed

lemma b64encode_ascii: "c \<in> set (b64encode bs) \<Longrightarrow> (of_char c :: nat) < 128"
  by (induction bs rule: b64encode.induct) (auto simp: b64_char_props(3) sextet_bounds)

lemma b64decode_b64encode: "b64decode (b64encode bs) = Inr bs"
proof -
  have "\<not> (\<exists>c \<in> set (b64encode bs). (of_char c :: nat) \<ge> 128)"
    using b64encode_ascii [of _ bs] by (auto simp: not_le)
  then show ?thesis
    using a2b_loop_b64encode [of bs 0 0 "[]"] by (simp add: b64decode_def)
qed

section \<open>Properties of \<open>encrypt_AES_256\<close> and \<open>decrypt_AES_256\<close>\<close>

subsection \<open>The library tables\<close>

text \<open>Two entries of the substitution table and the MixColumns example of FIPS 197.\<close>

lemma sub_byte_examples: "sub_byte 0x00 = 0x63" "sub_byte 0x53 = 0xed"
  by code_simp+

lemma mix_column_example: "mix_column [0xdb, 0x13, 0x53, 0x45] = [0x8e, 0x4d, 0xa1, 0xbc]"
  by code_simp

subsection \<open>Counter mode is an exclusive or with a fixed key stream\<close>

lemma length_keystream [simp]: "length (keystream k n m) = m"
  by (simp add: keystream_def)

lemma nth_keystream:
  "i < m \<Longrightarrow> keystream k n m ! i = keystream_byte (key_expansion k) n i"
  by (simp add: keystream_def)

lemma length_xor_bytes [simp]: "length (xor_bytes xs ys) = min (length xs) (length ys)"
  by (simp add: xor_bytes_def)

lemma nth_xor_bytes:
  "i < length xs \<Longrightarrow> i < length ys \<Longrightarrow> xor_bytes xs ys ! i = xs ! i XOR ys ! i"
  by (simp add: xor_bytes_def)

lemma length_gcm_crypt [simp]: "length (gcm_crypt k n d) = length d"
  by (simp add: gcm_crypt_def)

lemma nth_gcm_crypt:
  "i < length d \<Longrightarrow> gcm_crypt k n d ! i = d ! i XOR keystream_byte (key_expansion k) n i"
  by (simp add: gcm_crypt_def nth_xor_bytes nth_keystream)

lemma xor_mask_twice: "((a XOR m) XOR d) XOR m = a XOR d" for a m d :: byte
  by (rule bit_eqI) (auto simp: bit_simps)

lemma gcm_crypt_tampered: "gcm_crypt k n (xor_bytes (gcm_crypt k n p) d) = xor_bytes p d"
proof (rule nth_equalityI)
  show "length (gcm_crypt k n (xor_bytes (gcm_crypt k n p) d)) = length (xor_bytes p d)"
    by simp
next
  fix i assume "i < length (gcm_crypt k n (xor_bytes (gcm_crypt k n p) d))"
  then have i: "i < length p" "i < length d" by simp_all
  have "gcm_crypt k n (xor_bytes (gcm_crypt k n p) d) ! i
      = xor_bytes (gcm_crypt k n p) d ! i XOR keystream_byte (key_expansion k) n i"
    using i by (simp add: nth_gcm_crypt)
  also have "\<dots> = ((p ! i XOR keystream_byte (key_expansion k) n i) XOR d ! i)
                  XOR keystream_byte (key_expansion k) n i"
    using i by (simp add: nth_xor_bytes nth_gcm_crypt)
  also have "\<dots> = p ! i XOR d ! i"
    by (rule xor_mask_twice)
  also have "\<dots> = xor_bytes p d ! i"
    using i by (simp add: nth_xor_bytes)
  finally show "gcm_crypt k n (xor_bytes (gcm_crypt k n p) d) ! i = xor_bytes p d ! i" .
qed

lemma xor_bytes_zero: "xor_bytes p (replicate (length p) 0) = p"
  by (rule nth_equalityI) (simp_all add: nth_xor_bytes)

lemma gcm_crypt_involution: "gcm_crypt k n (gcm_crypt k n p) = p"
proof -
  have "xor_bytes (gcm_crypt k n p) (replicate (length p) 0) = gcm_crypt k n p"
    using xor_bytes_zero [of "gcm_crypt k n p"] by simp
  then show ?thesis
    using gcm_crypt_tampered [of k n p "replicate (length p) 0"] by (simp add: xor_bytes_zero)
qed

lemma length_gcm_digest [simp]: "length (gcm_digest k n c) = 16"
  by (simp add: gcm_digest_def bytes_of_block_def Let_def)

lemma encrypt_AES_256_eq: "encrypt_AES_256 msg = b64encode (gcm_crypt key iv msg)"
  by (simp add: encrypt_AES_256_def encrypt_and_digest_def Let_def)

lemma decrypt_AES_256_b64encode: "decrypt_AES_256 (b64encode c) = Inr (gcm_crypt key iv c)"
  by (simp add: decrypt_AES_256_def b64decode_b64encode decrypt_def)

lemma b64encode_eq_Nil: "b64encode bs = [] \<longleftrightarrow> bs = []"
  by (induction bs rule: b64encode.induct) simp_all

text \<open>
  Claim C2.  For every byte sequence \<open>p\<close>, decrypting the envelope that
  \<open>encrypt_AES_256\<close> produced for \<open>p\<close> returns exactly \<open>p\<close>.
\<close>

theorem decrypt_encrypt_AES_256: "decrypt_AES_256 (encrypt_AES_256 p) = Inr p"
  by (simp add: encrypt_AES_256_eq decrypt_AES_256_b64encode gcm_crypt_involution)

text \<open>
  Claim C3.  \<open>decrypt_AES_256\<close> checks no authentication tag: for every byte sequence
  \<open>c\<close>, the call on the base64 text of \<open>c\<close> raises nothing and returns a byte sequence
  of the length of \<open>c\<close>.
\<close>

theorem decrypt_AES_256_accepts_any_ciphertext:
  "\<exists>r. decrypt_AES_256 (b64encode c) = Inr r \<and> length r = length c"
  by (simp add: decrypt_AES_256_b64encode)

text \<open>
  Claim C4 says that the envelope is the base64 text of the ciphertext followed by the
  tag.  For the empty message the ciphertext is empty and the envelope is the empty
  text, whereas the base64 text of ciphertext and tag encodes the sixteen bytes of the
  tag.
\<close>

theorem envelope_has_no_tag_counterexample:
  "encrypt_AES_256 [] \<noteq>
     b64encode (fst (encrypt_and_digest key iv []) @ snd (encrypt_and_digest key iv []))"
proof -
  have "encrypt_AES_256 [] = []"
    by (simp add: encrypt_AES_256_eq gcm_crypt_def xor_bytes_def)
  moreover have "length (fst (encrypt_and_digest key iv []) @ snd (encrypt_and_digest key iv [])) = 16"
    by (simp add: encrypt_and_digest_def Let_def)
  then have "fst (encrypt_and_digest key iv []) @ snd (encrypt_and_digest key iv []) \<noteq> []"
    by (metis length_0_conv zero_neq_numeral)
  then have "b64encode (fst (encrypt_and_digest key iv []) @ snd (encrypt_and_digest key iv [])) \<noteq> []"
    by (simp only: b64encode_eq_Nil not_False_eq_True)
  ultimately show ?thesis by simp
qed

text \<open>
  Claim C4 as amended.  For every byte sequence \<open>p\<close>, the envelope returned by
  \<open>encrypt_AES_256(p)\<close> is the base64 text of the GCM ciphertext alone: decoding it gives
  the ciphertext, which has as many bytes as \<open>p\<close>; the sixteen bytes of the tag that
  \<open>encrypt_and_digest\<close> returns are not in the envelope.
\<close>

theorem envelope_is_ciphertext:
  "encrypt_AES_256 p = b64encode (fst (encrypt_and_digest key iv p))
   \<and> b64decode (encrypt_AES_256 p) = Inr (fst (encrypt_and_digest key iv p))
   \<and> length (fst (encrypt_and_digest key iv p)) = length p
   \<and> length (snd (encrypt_and_digest key iv p)) = 16"
  by (simp add: encrypt_AES_256_eq b64decode_b64encode encrypt_and_digest_def Let_def)

end
